theory Spec2Isabelle
  imports Complex_Main "HOL-Library.Multiset"
begin

section \<open>Data frames and their sorting\<close>

text \<open>
  A pandas DataFrame is a list of rows, in index order. A float column that may hold NaN
  is a \<open>real option\<close> (\<open>None\<close> is NaN); a float that the code only ever sees
  finite is a \<open>real\<close>. Python's unbounded \<open>int\<close> is \<open>int\<close>.

  \<^verbatim>\<open>DataFrame.sort_values(col, ascending=...)\<close> is called with pandas' default
  \<^verbatim>\<open>kind="quicksort"\<close>, which does not fix the order of rows with equal keys. The
  selectors therefore take the sort as a parameter \<open>srt\<close> (its first argument is the
  \<open>ascending\<close> flag), and the theorems assume of it only what every sort gives: the
  result holds the same rows (\<open>sort_values_spec\<close>). \<open>pd_sort\<close> is the instance
  used for concrete inputs: pandas reverses the frame, sorts ascending and reverses the
  result when \<open>ascending=False\<close>; the ascending sort here is insertion sort.
\<close>

datatype py_error = KeyError

definition sort_values_spec :: "(bool \<Rightarrow> 'a list \<Rightarrow> 'a list) \<Rightarrow> bool" where
  "sort_values_spec srt = (\<forall>asc xs. mset (srt asc xs) = mset xs)"

definition pd_sort :: "('a \<Rightarrow> real) \<Rightarrow> bool \<Rightarrow> 'a list \<Rightarrow> 'a list" where
  "pd_sort key ascending xs =
     (if ascending then sort_key key xs else rev (sort_key key (rev xs)))"

section \<open>Backend Auction: \<open>select_squad\<close> (src/squad.py)\<close>

record squad_row =
  name :: string
  year :: int
  predicted_auction_outcome :: string
  efficiency_score :: "real option"
  country_bucket :: "string option"
  role :: string
  predicted_price :: "real option"

text \<open>The key of the final and the candidate sort; the frames sorted hold no NaN score.\<close>

definition score_key :: "squad_row \<Rightarrow> real" where
  "score_key r = (case efficiency_score r of Some s \<Rightarrow> s | None \<Rightarrow> 0)"

text \<open>\<^verbatim>\<open>can_afford\<close>: a comparison with NaN is false.\<close>

definition can_afford :: "real \<Rightarrow> real \<Rightarrow> real option \<Rightarrow> bool" where
  "can_afford total_purse spent price =
     (case price of None \<Rightarrow> False | Some p \<Rightarrow> spent + p \<le> total_purse)"

definition row_key :: "squad_row \<Rightarrow> string \<times> int" where
  "row_key r = (name r, year r)"

text \<open>\<^verbatim>\<open>spent += price\<close>, reached only after \<open>can_afford\<close> held.\<close>

definition add_price :: "real \<Rightarrow> real option \<Rightarrow> real" where
  "add_price spent price = (case price of None \<Rightarrow> spent | Some p \<Rightarrow> spent + p)"

text \<open>Phase 1 (lines 61-73): the state is (selected_rows, spent, overseas_count).\<close>

fun phase1 :: "real \<Rightarrow> int \<Rightarrow> int \<Rightarrow> int \<Rightarrow> squad_row list \<Rightarrow>
    squad_row list \<times> real \<times> int \<Rightarrow> squad_row list \<times> real \<times> int" where
  "phase1 total_purse squad_size max_overseas min_overseas [] st = st"
| "phase1 total_purse squad_size max_overseas min_overseas (row # rows) (selected_rows, spent, overseas_count) =
     (if overseas_count \<ge> min_overseas then (selected_rows, spent, overseas_count)
      else if can_afford total_purse spent (predicted_price row)
              \<and> int (length selected_rows) < squad_size
              \<and> overseas_count < max_overseas
      then phase1 total_purse squad_size max_overseas min_overseas rows
             (selected_rows @ [row], add_price spent (predicted_price row), overseas_count + 1)
      else phase1 total_purse squad_size max_overseas min_overseas rows
             (selected_rows, spent, overseas_count))"

text \<open>
  Phase 2, inner loop (lines 85-99) over the domestic candidates of one role; the state
  is (selected_rows, selected_keys, spent).
\<close>

fun role_loop :: "real \<Rightarrow> int \<Rightarrow> squad_row list \<Rightarrow>
    squad_row list \<times> (string \<times> int) set \<times> real \<Rightarrow> squad_row list \<times> (string \<times> int) set \<times> real" where
  "role_loop total_purse squad_size [] st = st"
| "role_loop total_purse squad_size (row # rows) (selected_rows, selected_keys, spent) =
     (if row_key row \<notin> selected_keys
         \<and> can_afford total_purse spent (predicted_price row)
         \<and> int (length selected_rows) < squad_size
      then (if int (length (selected_rows @ [row])) \<ge> squad_size
            then (selected_rows @ [row], insert (row_key row) selected_keys,
                  add_price spent (predicted_price row))
            else role_loop total_purse squad_size rows
                  (selected_rows @ [row], insert (row_key row) selected_keys,
                   add_price spent (predicted_price row)))
      else role_loop total_purse squad_size rows (selected_rows, selected_keys, spent))"

text \<open>
  Phase 2, outer loop (lines 79-101) over \<^verbatim>\<open>role_requirements.items()\<close>, a dict in
  insertion order; the count \<open>needed\<close> is not read by the loop body.
\<close>

fun phase2 :: "real \<Rightarrow> int \<Rightarrow> squad_row list \<Rightarrow> (string \<times> int) list \<Rightarrow>
    squad_row list \<times> (string \<times> int) set \<times> real \<Rightarrow> squad_row list \<times> (string \<times> int) set \<times> real" where
  "phase2 total_purse squad_size candidates [] st = st"
| "phase2 total_purse squad_size candidates ((role_name, needed) # items) st =
     (let st' = role_loop total_purse squad_size
                  (filter (\<lambda>r. country_bucket r = Some ''Indian'' \<and> role r = role_name) candidates) st
      in if int (length (fst st')) \<ge> squad_size then st'
         else phase2 total_purse squad_size candidates items st')"

text \<open>Phase 3 (lines 106-120) over all domestic candidates.\<close>

fun phase3 :: "real \<Rightarrow> int \<Rightarrow> squad_row list \<Rightarrow>
    squad_row list \<times> (string \<times> int) set \<times> real \<Rightarrow> squad_row list \<times> (string \<times> int) set \<times> real" where
  "phase3 total_purse squad_size [] st = st"
| "phase3 total_purse squad_size (row # rows) (selected_rows, selected_keys, spent) =
     (let st' = (if row_key row \<notin> selected_keys
                    \<and> can_afford total_purse spent (predicted_price row)
                    \<and> int (length selected_rows) < squad_size
                 then (selected_rows @ [row], insert (row_key row) selected_keys,
                       add_price spent (predicted_price row))
                 else (selected_rows, selected_keys, spent))
      in if int (length (fst st')) \<ge> squad_size then st'
         else phase3 total_purse squad_size rows st')"

definition default_role_requirements :: "(string \<times> int) list" where
  "default_role_requirements = [(''Batter'', 3), (''Bowler'', 3), (''Allrounder'', 2)]"

text \<open>Lines 48-120 on the sorted candidate frame: the selected rows and the money spent.\<close>

definition select_rows :: "squad_row list \<Rightarrow> real \<Rightarrow> int \<Rightarrow> int \<Rightarrow> int \<Rightarrow>
    (string \<times> int) list \<Rightarrow> squad_row list \<times> real" where
  "select_rows candidates total_purse squad_size max_overseas min_overseas role_requirements =
     (let (rows1, spent1, overseas_count) =
            phase1 total_purse squad_size max_overseas min_overseas
              (filter (\<lambda>r. country_bucket r = Some ''Overseas'') candidates) ([], 0, 0);
          selected_keys = set (map row_key rows1);
          st2 = phase2 total_purse squad_size candidates role_requirements
                  (rows1, selected_keys, spent1);
          (rows3, keys3, spent3) =
            phase3 total_purse squad_size
              (filter (\<lambda>r. country_bucket r = Some ''Indian'') candidates) st2
      in (rows3, spent3))"

text \<open>The row mask of lines 39-43; \<^verbatim>\<open>notna()\<close> is false on NaN.\<close>

definition eligible :: "int \<Rightarrow> squad_row \<Rightarrow> bool" where
  "eligible yr r = (year r = yr \<and> predicted_auction_outcome r = ''SOLD''
                    \<and> efficiency_score r \<noteq> None)"

text \<open>
  \<open>select_squad\<close>. Lines 122-126 build the result with \<^verbatim>\<open>pd.DataFrame(selected_rows)\<close>
  and sort it by \<^verbatim>\<open>efficiency_score\<close>: from an empty list the frame has no columns, and
  \<^verbatim>\<open>sort_values\<close> on a column that is not there raises KeyError.
\<close>

definition select_squad :: "(bool \<Rightarrow> squad_row list \<Rightarrow> squad_row list) \<Rightarrow> squad_row list \<Rightarrow> int \<Rightarrow>
    real \<Rightarrow> int \<Rightarrow> int \<Rightarrow> int \<Rightarrow> (string \<times> int) list option \<Rightarrow> py_error + squad_row list" where
  "select_squad srt df yr total_purse squad_size max_overseas min_overseas role_requirements =
     (let reqs = (case role_requirements of None \<Rightarrow> default_role_requirements | Some d \<Rightarrow> d);
          candidates = srt False (filter (eligible yr) df);
          selected_rows = fst (select_rows candidates total_purse squad_size
                                 max_overseas min_overseas reqs)
      in if selected_rows = [] then Inl KeyError else Inr (srt False selected_rows))"


definition overseas_count_of :: "squad_row list \<Rightarrow> int" where
  "overseas_count_of rows = int (length (filter (\<lambda>r. country_bucket r = Some ''Overseas'') rows))"

section \<open>Backend Auction: the price ensemble of \<open>predict_prices\<close> (src/model.py)\<close>

text \<open>
  Lines 253-268 of \<^verbatim>\<open>AuctionPriceModel.predict_prices\<close>. The two fitted pipelines are
  parameters: \<open>lgbm\<close> and \<open>knn\<close> give the log-space prediction for a row.
  \<^verbatim>\<open>np.expm1\<close> is \<open>exp x - 1\<close>; \<^verbatim>\<open>fillna(0)\<close> turns a missing base price into 0.
\<close>

record auction_row =
  player_name :: string
  base_price :: "real option"

definition expm1 :: "real \<Rightarrow> real" where
  "expm1 x = exp x - 1"

definition fillna0 :: "real option \<Rightarrow> real" where
  "fillna0 v = (case v of None \<Rightarrow> 0 | Some b \<Rightarrow> b)"

definition price_ensemble :: "(auction_row \<Rightarrow> real) \<Rightarrow> (auction_row \<Rightarrow> real) \<Rightarrow> auction_row \<Rightarrow> real" where
  "price_ensemble lgbm knn r = 0.5 * expm1 (lgbm r) + 0.5 * expm1 (knn r)"

text \<open>The column \<^verbatim>\<open>predicted_price\<close> that \<open>predict_prices\<close> writes, row by row.\<close>

definition predict_prices :: "(auction_row \<Rightarrow> real) \<Rightarrow> (auction_row \<Rightarrow> real) \<Rightarrow> auction_row list \<Rightarrow> real list" where
  "predict_prices lgbm knn master_df =
     map (\<lambda>r. max (price_ensemble lgbm knn r) (fillna0 (base_price r))) master_df"

section \<open>Backend Starting XI: \<open>select_starting_xi\<close> (app/selector.py)\<close>

text \<open>
  A row of \<^verbatim>\<open>df_team\<close> as the selector reads it after step 3: the columns
  \<^verbatim>\<open>Player\<close>, \<^verbatim>\<open>role\<close> (the stripped \<^verbatim>\<open>Paying_Role\<close> of line 83),
  \<^verbatim>\<open>final_score\<close> (finite: \<^verbatim>\<open>compute_player_score\<close> clamps), \<^verbatim>\<open>is_overseas\<close> and
  \<^verbatim>\<open>is_keeper\<close>.

  The flag columns are Boolean and \<^verbatim>\<open>~\<close> on them is negation, as the source's comments
  read the masks. (pandas may turn the columns of \<^verbatim>\<open>xi_df\<close> and \<^verbatim>\<open>remaining\<close> into
  object columns once a row has been appended as a transposed Series; the model keeps them
  Boolean. No swap precedes a mask in the concrete runs below.)
\<close>

record xi_row =
  Player :: string
  role :: string
  final_score :: real
  is_overseas :: bool
  is_keeper :: bool

definition MIN_SPECIAL_BOWLERS :: int where "MIN_SPECIAL_BOWLERS = 4"
definition MAX_SPECIAL_BOWLERS :: int where "MAX_SPECIAL_BOWLERS = 6"
definition MIN_ALLROUNDERS_IF_4 :: int where "MIN_ALLROUNDERS_IF_4 = 2"

definition is_bowler_spec :: "xi_row \<Rightarrow> bool" where
  "is_bowler_spec r = (role r = ''Bowling'')"

definition is_allrounder :: "xi_row \<Rightarrow> bool" where
  "is_allrounder r = (role r = ''All rounder'')"

record counts =
  bowlers :: int
  allrounders :: int
  keepers :: int
  overseas :: int

definition recompute_counts :: "xi_row list \<Rightarrow> counts" where
  "recompute_counts xi_df =
     \<lparr>bowlers = int (length (filter is_bowler_spec xi_df)),
      allrounders = int (length (filter is_allrounder xi_df)),
      keepers = int (length (filter is_keeper xi_df)),
      overseas = int (length (filter is_overseas xi_df))\<rparr>"

text \<open>The fill loop of step 4 (lines 102-112); the state is (selected_names, overseas_count).\<close>

fun fill_rest :: "int \<Rightarrow> xi_row list \<Rightarrow> string list \<times> int \<Rightarrow> string list \<times> int" where
  "fill_rest max_overseas [] st = st"
| "fill_rest max_overseas (row # rows) (selected_names, overseas_count) =
     (if length selected_names \<ge> 11 then (selected_names, overseas_count)
      else if Player row \<in> set selected_names
        then fill_rest max_overseas rows (selected_names, overseas_count)
      else if is_overseas row \<and> overseas_count \<ge> max_overseas
        then fill_rest max_overseas rows (selected_names, overseas_count)
      else fill_rest max_overseas rows
             (selected_names @ [Player row],
              if is_overseas row then overseas_count + 1 else overseas_count))"

text \<open>Step 4 (lines 90-116): the initial XI and the bench \<^verbatim>\<open>remaining\<close>.\<close>

definition initial_xi :: "(bool \<Rightarrow> xi_row list \<Rightarrow> xi_row list) \<Rightarrow> int \<Rightarrow> xi_row list \<Rightarrow>
    xi_row list \<times> xi_row list" where
  "initial_xi srt max_overseas df_team =
     (let locked = (case srt False (filter is_keeper df_team) of
                      [] \<Rightarrow> ([], 0)
                    | k # _ \<Rightarrow> ([Player k], if is_overseas k then 1 else 0));
          selected_names = fst (fill_rest max_overseas (srt False df_team) locked)
      in (srt False (filter (\<lambda>r. Player r \<in> set selected_names) df_team),
          filter (\<lambda>r. Player r \<notin> set selected_names) df_team))"

definition overseas_after :: "int \<Rightarrow> xi_row \<Rightarrow> xi_row \<Rightarrow> int" where
  "overseas_after overseas_count out_row in_row =
     overseas_count - of_bool (is_overseas out_row) + of_bool (is_overseas in_row)"

text \<open>
  The swap written out four times in the source (lines 177-186, 239-247, 311-319,
  358-366): drop \<open>out_row\<close>'s name from the XI, append \<open>in_row\<close> and sort; drop
  \<open>in_row\<close>'s name from the bench and append \<open>out_row\<close>.
\<close>

definition swap_rows :: "(bool \<Rightarrow> xi_row list \<Rightarrow> xi_row list) \<Rightarrow> xi_row \<Rightarrow> xi_row \<Rightarrow>
    xi_row list \<times> xi_row list \<Rightarrow> xi_row list \<times> xi_row list" where
  "swap_rows srt out_row in_row st =
     (case st of (xi_df, remaining) \<Rightarrow>
        (srt False (filter (\<lambda>r. Player r \<noteq> Player out_row) xi_df @ [in_row]),
         filter (\<lambda>r. Player r \<noteq> Player in_row) remaining @ [out_row]))"

text \<open>
  Case A, inner loop (lines 144-194), \<open>needed\<close> rounds: the state is
  ((xi_df, remaining), changed).
\<close>

fun bring_in_bowlers :: "(bool \<Rightarrow> xi_row list \<Rightarrow> xi_row list) \<Rightarrow> int \<Rightarrow> nat \<Rightarrow>
    (xi_row list \<times> xi_row list) \<times> bool \<Rightarrow> (xi_row list \<times> xi_row list) \<times> bool" where
  "bring_in_bowlers srt max_overseas 0 st = st"
| "bring_in_bowlers srt max_overseas (Suc n) ((xi_df, remaining), changed) =
     (if bowlers (recompute_counts xi_df) \<ge> MIN_SPECIAL_BOWLERS
      then ((xi_df, remaining), changed)
      else (case srt False (filter is_bowler_spec remaining) of
              [] \<Rightarrow> ((xi_df, remaining), changed)
            | in_row # _ \<Rightarrow>
               (case find (\<lambda>out_row. overseas_after (overseas (recompute_counts xi_df)) out_row in_row
                                        \<le> max_overseas)
                       (srt True (filter (\<lambda>r. \<not> is_bowler_spec r \<and> \<not> is_keeper r) xi_df)) of
                  None \<Rightarrow> ((xi_df, remaining), changed)
                | Some out_row \<Rightarrow>
                    bring_in_bowlers srt max_overseas n
                      (swap_rows srt out_row in_row (xi_df, remaining), True))))"

text \<open>Case B, inner loop (lines 207-254), \<open>excess\<close> rounds.\<close>

fun take_out_bowlers :: "(bool \<Rightarrow> xi_row list \<Rightarrow> xi_row list) \<Rightarrow> int \<Rightarrow> nat \<Rightarrow>
    (xi_row list \<times> xi_row list) \<times> bool \<Rightarrow> (xi_row list \<times> xi_row list) \<times> bool" where
  "take_out_bowlers srt max_overseas 0 st = st"
| "take_out_bowlers srt max_overseas (Suc n) ((xi_df, remaining), changed) =
     (if bowlers (recompute_counts xi_df) \<le> MAX_SPECIAL_BOWLERS
      then ((xi_df, remaining), changed)
      else (case srt True (filter (\<lambda>r. is_bowler_spec r \<and> \<not> is_keeper r) xi_df) of
              [] \<Rightarrow> ((xi_df, remaining), changed)
            | out_row # _ \<Rightarrow>
               (case find (\<lambda>in_row. overseas_after (overseas (recompute_counts xi_df)) out_row in_row
                                       \<le> max_overseas)
                       (srt False (filter (\<lambda>r. \<not> is_bowler_spec r) remaining)) of
                  None \<Rightarrow> ((xi_df, remaining), changed)
                | Some in_row \<Rightarrow>
                    take_out_bowlers srt max_overseas n
                      (swap_rows srt out_row in_row (xi_df, remaining), True))))"

text \<open>Step 5 (lines 125-262): at most \<open>max_iters\<close> rounds of the outer loop.\<close>

fun enforce_bowlers :: "(bool \<Rightarrow> xi_row list \<Rightarrow> xi_row list) \<Rightarrow> int \<Rightarrow> nat \<Rightarrow>
    xi_row list \<times> xi_row list \<Rightarrow> xi_row list \<times> xi_row list" where
  "enforce_bowlers srt max_overseas 0 st = st"
| "enforce_bowlers srt max_overseas (Suc iters) (xi_df, remaining) =
     (let bowler_count = bowlers (recompute_counts xi_df) in
      if bowler_count < MIN_SPECIAL_BOWLERS then
        (if srt False (filter is_bowler_spec remaining) = [] then (xi_df, remaining)
         else (case bring_in_bowlers srt max_overseas (nat (MIN_SPECIAL_BOWLERS - bowler_count))
                      ((xi_df, remaining), False) of
                 (st', changed) \<Rightarrow>
                   if \<not> changed then st' else enforce_bowlers srt max_overseas iters st'))
      else if bowler_count > MAX_SPECIAL_BOWLERS then
        (if srt True (filter (\<lambda>r. is_bowler_spec r \<and> \<not> is_keeper r) xi_df) = [] then (xi_df, remaining)
         else (case take_out_bowlers srt max_overseas (nat (bowler_count - MAX_SPECIAL_BOWLERS))
                      ((xi_df, remaining), False) of
                 (st', changed) \<Rightarrow>
                   if \<not> changed then st' else enforce_bowlers srt max_overseas iters st'))
      else (xi_df, remaining))"

text \<open>Step 6, the loop of lines 273-325, \<open>needed_ar\<close> rounds.\<close>

fun bring_in_allrounders :: "(bool \<Rightarrow> xi_row list \<Rightarrow> xi_row list) \<Rightarrow> int \<Rightarrow> nat \<Rightarrow>
    xi_row list \<times> xi_row list \<Rightarrow> xi_row list \<times> xi_row list" where
  "bring_in_allrounders srt max_overseas 0 st = st"
| "bring_in_allrounders srt max_overseas (Suc n) (xi_df, remaining) =
     (if allrounders (recompute_counts xi_df) \<ge> MIN_ALLROUNDERS_IF_4 then (xi_df, remaining)
      else (case srt False (filter is_allrounder remaining) of
              [] \<Rightarrow> (xi_df, remaining)
            | in_row # _ \<Rightarrow>
               (let candidates_out =
                      srt True (filter (\<lambda>r. \<not> is_allrounder r \<and> \<not> is_bowler_spec r \<and> \<not> is_keeper r) xi_df)
                in if candidates_out = [] then (xi_df, remaining)
                   else (case find (\<lambda>out_row. overseas_after (overseas (recompute_counts xi_df))
                                                 out_row in_row \<le> max_overseas) candidates_out of
                           None \<Rightarrow> (xi_df, remaining)
                         | Some out_row \<Rightarrow>
                             bring_in_allrounders srt max_overseas n
                               (swap_rows srt out_row in_row (xi_df, remaining))))))"

text \<open>Step 6 (lines 265-325).\<close>

definition enforce_allrounders :: "(bool \<Rightarrow> xi_row list \<Rightarrow> xi_row list) \<Rightarrow> int \<Rightarrow>
    xi_row list \<times> xi_row list \<Rightarrow> xi_row list \<times> xi_row list" where
  "enforce_allrounders srt max_overseas st =
     (case st of (xi_df, remaining) \<Rightarrow>
        (let c = recompute_counts xi_df in
         if bowlers c = MIN_SPECIAL_BOWLERS \<and> allrounders c < MIN_ALLROUNDERS_IF_4
         then bring_in_allrounders srt max_overseas (nat (MIN_ALLROUNDERS_IF_4 - allrounders c))
                (xi_df, remaining)
         else (xi_df, remaining)))"

text \<open>
  Step 7 (lines 328-367). \<open>best_keeper\<close> is row 0 of the sorted keepers of the team, a
  frame just checked to be non-empty.
\<close>

definition ensure_keeper :: "(bool \<Rightarrow> xi_row list \<Rightarrow> xi_row list) \<Rightarrow> int \<Rightarrow> xi_row list \<Rightarrow>
    xi_row list \<times> xi_row list \<Rightarrow> xi_row list \<times> xi_row list" where
  "ensure_keeper srt max_overseas df_team st =
     (case st of (xi_df, remaining) \<Rightarrow>
        (let c = recompute_counts xi_df in
         if keepers c = 0 \<and> filter is_keeper df_team \<noteq> [] then
           (let best_keeper = hd (srt False (filter is_keeper df_team)) in
            if Player best_keeper \<notin> set (map Player xi_df) then
              (case find (\<lambda>out_row. overseas_after (overseas c) out_row best_keeper \<le> max_overseas)
                      (srt True (filter (\<lambda>r. \<not> is_keeper r) xi_df)) of
                 None \<Rightarrow> (xi_df, remaining)
               | Some out_row \<Rightarrow> swap_rows srt out_row best_keeper (xi_df, remaining))
            else (xi_df, remaining))
         else (xi_df, remaining)))"

text \<open>Step 9 (lines 373-391): the impact player from the bench.\<close>

definition pick_impact :: "(bool \<Rightarrow> xi_row list \<Rightarrow> xi_row list) \<Rightarrow> string \<Rightarrow> xi_row list \<Rightarrow>
    xi_row list \<Rightarrow> xi_row option" where
  "pick_impact srt pitch_type df_team xi_df =
     (let remaining = filter (\<lambda>r. Player r \<notin> set (map Player xi_df)) df_team in
      if remaining = [] then None
      else (let preferred =
                  (if pitch_type = ''bowling''
                   then srt False (filter (\<lambda>r. role r \<in> set [''Bowling'', ''All rounder'']) remaining)
                   else srt False (filter (\<lambda>r. role r \<in> set [''Batting'', ''All rounder'']) remaining))
            in if preferred = [] then Some (hd (srt False remaining)) else Some (hd preferred)))"

text \<open>
  \<open>select_starting_xi\<close> from step 3 on: \<open>df_team\<close> is the scored team frame that
  \<^verbatim>\<open>compute_scores_for_team\<close> returned, \<open>pitch_type\<close> the resolved pitch. The result is
  the pair (xi_df, impact_row).
\<close>

definition select_starting_xi :: "(bool \<Rightarrow> xi_row list \<Rightarrow> xi_row list) \<Rightarrow> xi_row list \<Rightarrow> string \<Rightarrow>
    int \<Rightarrow> xi_row list \<times> xi_row option" where
  "select_starting_xi srt df_team pitch_type max_overseas =
     (if df_team = [] then (df_team, None)
      else (case initial_xi srt max_overseas df_team of
              (xi0, remaining0) \<Rightarrow>
                if xi0 = [] then (xi0, None)
                else (let st5 = enforce_bowlers srt max_overseas 20 (xi0, remaining0);
                          st6 = enforce_allrounders srt max_overseas st5;
                          st7 = ensure_keeper srt max_overseas df_team st6;
                          xi_df = srt False (fst st7)
                      in (xi_df, pick_impact srt pitch_type df_team xi_df))))"

section \<open>Example frames\<close>

text \<open>
  An auction frame for 2025: one overseas and three domestic candidates, then a row
  without a score, a row without a price, a row of a third bucket, an unsold row and a row
  of another year.
\<close>

definition auction_2025 :: "squad_row list" where
  "auction_2025 = [
     \<lparr>name = ''Rashid'', year = 2025, predicted_auction_outcome = ''SOLD'',
      efficiency_score = Some 9, country_bucket = Some ''Overseas'', role = ''Bowler'',
      predicted_price = Some 30\<rparr>,
     \<lparr>name = ''Virat'', year = 2025, predicted_auction_outcome = ''SOLD'',
      efficiency_score = Some 8, country_bucket = Some ''Indian'', role = ''Batter'',
      predicted_price = Some 40\<rparr>,
     \<lparr>name = ''Bumrah'', year = 2025, predicted_auction_outcome = ''SOLD'',
      efficiency_score = Some 7, country_bucket = Some ''Indian'', role = ''Bowler'',
      predicted_price = Some 50\<rparr>,
     \<lparr>name = ''Jadeja'', year = 2025, predicted_auction_outcome = ''SOLD'',
      efficiency_score = Some 6, country_bucket = Some ''Indian'', role = ''Allrounder'',
      predicted_price = Some 20\<rparr>,
     \<lparr>name = ''Noscore'', year = 2025, predicted_auction_outcome = ''SOLD'',
      efficiency_score = None, country_bucket = Some ''Indian'', role = ''Batter'',
      predicted_price = Some 1\<rparr>,
     \<lparr>name = ''Noprice'', year = 2025, predicted_auction_outcome = ''SOLD'',
      efficiency_score = Some 10, country_bucket = Some ''Indian'', role = ''Batter'',
      predicted_price = None\<rparr>,
     \<lparr>name = ''Associate'', year = 2025, predicted_auction_outcome = ''SOLD'',
      efficiency_score = Some 11, country_bucket = Some ''Other'', role = ''Batter'',
      predicted_price = Some 1\<rparr>,
     \<lparr>name = ''Unsold'', year = 2025, predicted_auction_outcome = ''UNSOLD'',
      efficiency_score = Some 12, country_bucket = Some ''Indian'', role = ''Batter'',
      predicted_price = Some 1\<rparr>,
     \<lparr>name = ''Virat'', year = 2024, predicted_auction_outcome = ''SOLD'',
      efficiency_score = Some 13, country_bucket = Some ''Indian'', role = ''Batter'',
      predicted_price = Some 1\<rparr>]"

text \<open>
  A team of thirteen. Sorted by score the first eleven are the keeper K, the bowlers B1
  (overseas) to B4, the allrounder A1 and the batters T1 to T5; the allrounders A2
  (overseas) and A3 are left for the bench.
\<close>

definition team_b :: "xi_row list" where
  "team_b = [
     \<lparr>Player = ''K'', role = ''Batting'', final_score = 90, is_overseas = False, is_keeper = True\<rparr>,
     \<lparr>Player = ''B1'', role = ''Bowling'', final_score = 85, is_overseas = True, is_keeper = False\<rparr>,
     \<lparr>Player = ''B2'', role = ''Bowling'', final_score = 84, is_overseas = False, is_keeper = False\<rparr>,
     \<lparr>Player = ''B3'', role = ''Bowling'', final_score = 83, is_overseas = False, is_keeper = False\<rparr>,
     \<lparr>Player = ''B4'', role = ''Bowling'', final_score = 82, is_overseas = False, is_keeper = False\<rparr>,
     \<lparr>Player = ''A1'', role = ''All rounder'', final_score = 80, is_overseas = False, is_keeper = False\<rparr>,
     \<lparr>Player = ''T1'', role = ''Batting'', final_score = 75, is_overseas = False, is_keeper = False\<rparr>,
     \<lparr>Player = ''T2'', role = ''Batting'', final_score = 74, is_overseas = False, is_keeper = False\<rparr>,
     \<lparr>Player = ''T3'', role = ''Batting'', final_score = 73, is_overseas = False, is_keeper = False\<rparr>,
     \<lparr>Player = ''T4'', role = ''Batting'', final_score = 72, is_overseas = False, is_keeper = False\<rparr>,
     \<lparr>Player = ''T5'', role = ''Batting'', final_score = 71, is_overseas = False, is_keeper = False\<rparr>,
     \<lparr>Player = ''A2'', role = ''All rounder'', final_score = 60, is_overseas = True, is_keeper = False\<rparr>,
     \<lparr>Player = ''A3'', role = ''All rounder'', final_score = 50, is_overseas = False, is_keeper = False\<rparr>]"

text \<open>A team of four whose only keeper, the top scorer, is from overseas.\<close>

definition team_d :: "xi_row list" where
  "team_d = [
     \<lparr>Player = ''Jos Buttler'', role = ''Batting'', final_score = 95, is_overseas = True, is_keeper = True\<rparr>,
     \<lparr>Player = ''Rashid Khan'', role = ''Bowling'', final_score = 90, is_overseas = True, is_keeper = False\<rparr>,
     \<lparr>Player = ''Virat Kohli'', role = ''Batting'', final_score = 80, is_overseas = False, is_keeper = False\<rparr>,
     \<lparr>Player = ''Jasprit Bumrah'', role = ''Bowling'', final_score = 70, is_overseas = False, is_keeper = False\<rparr>]"

text \<open>Three rows of the master frame: two with a base price, one without.\<close>

definition master_3 :: "auction_row list" where
  "master_3 = [\<lparr>player_name = ''A'', base_price = Some 2\<rparr>,
               \<lparr>player_name = ''B'', base_price = Some 5\<rparr>,
               \<lparr>player_name = ''C'', base_price = None\<rparr>]"

section \<open>Invariants used in the proofs\<close>

text \<open>No player's name is twice in the XI and the bench taken together.\<close>

definition names_distinct :: "xi_row list \<times> xi_row list \<Rightarrow> bool" where
  "names_distinct st = distinct (map Player (fst st @ snd st))"

text \<open>
  An invariant of (xi_df, remaining) is kept by the repair loops when it is kept by every
  swap they can make: \<open>in_row\<close> from the bench for \<open>out_row\<close> from the XI, with the
  overseas count after the swap within the cap.
\<close>

definition swap_closed :: "(bool \<Rightarrow> xi_row list \<Rightarrow> xi_row list) \<Rightarrow> int \<Rightarrow>
    (xi_row list \<times> xi_row list \<Rightarrow> bool) \<Rightarrow> bool" where
  "swap_closed srt max_overseas I =
     (\<forall>xi_df remaining out_row in_row.
        I (xi_df, remaining) \<and> in_row \<in> set remaining \<and> out_row \<in> set xi_df
        \<and> overseas_after (overseas (recompute_counts xi_df)) out_row in_row \<le> max_overseas
        \<longrightarrow> I (swap_rows srt out_row in_row (xi_df, remaining)))"



text \<open>
  The seed's counter \<open>overseas_count\<close> is the number of overseas rows of the team whose
  name is selected, and it is within the cap.
\<close>

definition seed_inv :: "int \<Rightarrow> xi_row list \<Rightarrow> string list \<times> int \<Rightarrow> bool" where
  "seed_inv mx df st = (case st of (sel, oc) \<Rightarrow>
     oc = int (length (filter is_overseas (filter (\<lambda>r. Player r \<in> set sel) df))) \<and> oc \<le> mx)"

text \<open>No name is twice in XI and bench, and the XI is within the overseas cap.\<close>

definition cap_inv :: "int \<Rightarrow> xi_row list \<times> xi_row list \<Rightarrow> bool" where
  "cap_inv mx st = (names_distinct st \<and> overseas (recompute_counts (fst st)) \<le> mx)"

text \<open>
  The rows that step 6 may take out (lines 290-294): not an allrounder, not a specialist
  bowler, not a keeper.
\<close>

definition is_pure_batter :: "xi_row \<Rightarrow> bool" where
  "is_pure_batter r = (\<not> is_allrounder r \<and> \<not> is_bowler_spec r \<and> \<not> is_keeper r)"

section \<open>Sorting keeps the rows\<close>

lemma pd_sort_spec: "sort_values_spec (pd_sort key)"
  by (simp add: sort_values_spec_def pd_sort_def)

lemma sort_values_set: "sort_values_spec srt \<Longrightarrow> set (srt asc xs) = set xs"
  unfolding sort_values_spec_def by (metis set_mset_mset)

lemma sort_values_length: "sort_values_spec srt \<Longrightarrow> length (srt asc xs) = length xs"
  unfolding sort_values_spec_def by (metis size_mset)

lemma sort_values_map: "sort_values_spec srt \<Longrightarrow> mset (map f (srt asc xs)) = mset (map f xs)"
  unfolding sort_values_spec_def by (metis mset_map)


lemma sort_values_filter_length:
  "sort_values_spec srt \<Longrightarrow> length (filter P (srt asc xs)) = length (filter P xs)"
  unfolding sort_values_spec_def by (metis mset_filter size_mset)


lemma sort_values_Nil: "sort_values_spec srt \<Longrightarrow> (srt asc xs = []) = (xs = [])"
  by (metis sort_values_length length_0_conv)

section \<open>The phases of \<open>select_squad\<close> keep an invariant\<close>

lemma phase1_invariant:
  assumes "I (sel, sp, oc)"
    and step: "\<And>row sel sp oc. I (sel, sp, oc) \<Longrightarrow> row \<in> set rows \<Longrightarrow> oc < mn \<Longrightarrow>
        can_afford P sp (predicted_price row) \<Longrightarrow> int (length sel) < sz \<Longrightarrow> oc < mx \<Longrightarrow>
        I (sel @ [row], add_price sp (predicted_price row), oc + 1)"
  shows "I (phase1 P sz mx mn rows (sel, sp, oc))"
  using assms
proof (induction rows arbitrary: sel sp oc)
  case Nil
  then show ?case by simp
next
  case (Cons row rows)
  have step': "\<And>row sel sp oc. I (sel, sp, oc) \<Longrightarrow> row \<in> set rows \<Longrightarrow> oc < mn \<Longrightarrow>
        can_afford P sp (predicted_price row) \<Longrightarrow> int (length sel) < sz \<Longrightarrow> oc < mx \<Longrightarrow>
        I (sel @ [row], add_price sp (predicted_price row), oc + 1)"
    using Cons.prems(2) by simp
  show ?case
  proof (cases "oc \<ge> mn")
    case True
    then show ?thesis using Cons.prems(1) by simp
  next
    case False
    show ?thesis
    proof (cases "can_afford P sp (predicted_price row) \<and> int (length sel) < sz \<and> oc < mx")
      case True
      then have "I (sel @ [row], add_price sp (predicted_price row), oc + 1)"
        using Cons.prems(2)[OF Cons.prems(1), of row] False by simp
      from Cons.IH[OF this step'] False True show ?thesis by simp
    next
      case skip: False
      from Cons.IH[OF Cons.prems(1) step'] False skip show ?thesis by auto
    qed
  qed
qed

lemma role_loop_invariant:
  assumes "I (sel, ks, sp)"
    and step: "\<And>row sel ks sp. I (sel, ks, sp) \<Longrightarrow> row \<in> set rows \<Longrightarrow> row_key row \<notin> ks \<Longrightarrow>
        can_afford P sp (predicted_price row) \<Longrightarrow> int (length sel) < sz \<Longrightarrow>
        I (sel @ [row], insert (row_key row) ks, add_price sp (predicted_price row))"
  shows "I (role_loop P sz rows (sel, ks, sp))"
  using assms
proof (induction rows arbitrary: sel ks sp)
  case Nil
  then show ?case by simp
next
  case (Cons row rows)
  have step': "\<And>row sel ks sp. I (sel, ks, sp) \<Longrightarrow> row \<in> set rows \<Longrightarrow> row_key row \<notin> ks \<Longrightarrow>
        can_afford P sp (predicted_price row) \<Longrightarrow> int (length sel) < sz \<Longrightarrow>
        I (sel @ [row], insert (row_key row) ks, add_price sp (predicted_price row))"
    using Cons.prems(2) by simp
  show ?case
  proof (cases "row_key row \<notin> ks \<and> can_afford P sp (predicted_price row) \<and> int (length sel) < sz")
    case True
    then have b: "I (sel @ [row], insert (row_key row) ks, add_price sp (predicted_price row))"
      using Cons.prems(2)[OF Cons.prems(1), of row] by simp
    show ?thesis
    proof (cases "int (length (sel @ [row])) \<ge> sz")
      case full: True
      then show ?thesis using True b by simp
    next
      case more: False
      from Cons.IH[OF b step'] more True show ?thesis by simp
    qed
  next
    case False
    from Cons.IH[OF Cons.prems(1) step'] False show ?thesis by auto
  qed
qed

lemma phase2_invariant:
  assumes "I (sel, ks, sp)"
    and step: "\<And>row sel ks sp. I (sel, ks, sp) \<Longrightarrow> row \<in> set cands \<Longrightarrow>
        country_bucket row = Some ''Indian'' \<Longrightarrow> row_key row \<notin> ks \<Longrightarrow>
        can_afford P sp (predicted_price row) \<Longrightarrow> int (length sel) < sz \<Longrightarrow>
        I (sel @ [row], insert (row_key row) ks, add_price sp (predicted_price row))"
  shows "I (phase2 P sz cands items (sel, ks, sp))"
  using assms(1)
proof (induction items arbitrary: sel ks sp)
  case Nil
  then show ?case by simp
next
  case (Cons it items)
  obtain rn nd where it: "it = (rn, nd)" by (cases it)
  let ?rows = "filter (\<lambda>r. country_bucket r = Some ''Indian'' \<and> squad_row.role r = rn) cands"
  obtain s1 k1 p1 where rl: "role_loop P sz ?rows (sel, ks, sp) = (s1, k1, p1)"
    using prod_cases3 by blast
  have "I (role_loop P sz ?rows (sel, ks, sp))"
    by (rule role_loop_invariant[where I=I, OF Cons.prems]) (simp add: step)
  then have b1: "I (s1, k1, p1)" by (simp add: rl)
  show ?case
  proof (cases "int (length s1) \<ge> sz")
    case True
    then show ?thesis using b1 by (simp add: it rl)
  next
    case False
    then show ?thesis using Cons.IH[OF b1] by (simp add: it rl)
  qed
qed

lemma phase3_invariant:
  assumes "I (sel, ks, sp)"
    and step: "\<And>row sel ks sp. I (sel, ks, sp) \<Longrightarrow> row \<in> set rows \<Longrightarrow> row_key row \<notin> ks \<Longrightarrow>
        can_afford P sp (predicted_price row) \<Longrightarrow> int (length sel) < sz \<Longrightarrow>
        I (sel @ [row], insert (row_key row) ks, add_price sp (predicted_price row))"
  shows "I (phase3 P sz rows (sel, ks, sp))"
  using assms
proof (induction rows arbitrary: sel ks sp)
  case Nil
  then show ?case by simp
next
  case (Cons row rows)
  have step': "\<And>row sel ks sp. I (sel, ks, sp) \<Longrightarrow> row \<in> set rows \<Longrightarrow> row_key row \<notin> ks \<Longrightarrow>
        can_afford P sp (predicted_price row) \<Longrightarrow> int (length sel) < sz \<Longrightarrow>
        I (sel @ [row], insert (row_key row) ks, add_price sp (predicted_price row))"
    using Cons.prems(2) by simp
  show ?case
  proof (cases "row_key row \<notin> ks \<and> can_afford P sp (predicted_price row) \<and> int (length sel) < sz")
    case True
    then have b: "I (sel @ [row], insert (row_key row) ks, add_price sp (predicted_price row))"
      using Cons.prems(2)[OF Cons.prems(1), of row] by simp
    show ?thesis
    proof (cases "int (length (sel @ [row])) \<ge> sz")
      case full: True
      then show ?thesis using True b by simp
    next
      case more: False
      from Cons.IH[OF b step'] more True show ?thesis by simp
    qed
  next
    case False
    show ?thesis
    proof (cases "int (length sel) \<ge> sz")
      case full: True
      then show ?thesis using Cons.prems(1) False by auto
    next
      case more: False
      from Cons.IH[OF Cons.prems(1) step'] False more show ?thesis by auto
    qed
  qed
qed

text \<open>The three phases in sequence, for an invariant of the selected rows and the money spent.\<close>

lemma select_rows_invariant:
  assumes init: "J [] 0"
    and step: "\<And>row sel sp. J sel sp \<Longrightarrow> row \<in> set cands \<Longrightarrow>
        country_bucket row = Some ''Overseas'' \<or> country_bucket row = Some ''Indian'' \<Longrightarrow>
        can_afford P sp (predicted_price row) \<Longrightarrow> int (length sel) < sz \<Longrightarrow>
        J (sel @ [row]) (add_price sp (predicted_price row))"
  shows "J (fst (select_rows cands P sz mx mn reqs)) (snd (select_rows cands P sz mx mn reqs))"
proof -
  obtain s1 p1 oc where p1: "phase1 P sz mx mn (filter (\<lambda>r. country_bucket r = Some ''Overseas'') cands) ([], 0, 0) = (s1, p1, oc)"
    using prod_cases3 by blast
  obtain s2 k2 p2 where p2: "phase2 P sz cands reqs (s1, row_key ` set s1, p1) = (s2, k2, p2)"
    using prod_cases3 by blast
  obtain s3 k3 p3 where p3: "phase3 P sz (filter (\<lambda>r. country_bucket r = Some ''Indian'') cands) (s2, k2, p2) = (s3, k3, p3)"
    using prod_cases3 by blast
  have "(\<lambda>(sel, sp, oc). J sel sp) (phase1 P sz mx mn (filter (\<lambda>r. country_bucket r = Some ''Overseas'') cands) ([], 0, 0))"
    by (rule phase1_invariant) (use init step in auto)
  then have b1: "J s1 p1" by (simp add: p1)
  have "(\<lambda>(sel, ks, sp). J sel sp) (phase2 P sz cands reqs (s1, row_key ` set s1, p1))"
    by (rule phase2_invariant) (use b1 step in auto)
  then have b2: "J s2 p2" by (simp add: p2)
  have "(\<lambda>(sel, ks, sp). J sel sp) (phase3 P sz (filter (\<lambda>r. country_bucket r = Some ''Indian'') cands) (s2, k2, p2))"
    by (rule phase3_invariant) (use b2 step in auto)
  then have b3: "J s3 p3" by (simp add: p3)
  have "select_rows cands P sz mx mn reqs = (s3, p3)"
    unfolding select_rows_def using p1 p2 p3 by simp
  then show ?thesis using b3 by simp
qed


section \<open>The purse\<close>




section \<open>What a returned roster is made of\<close>

lemma select_squad_Inr:
  assumes "select_squad srt df yr P sz mx mn rr = Inr roster"
  shows "roster = srt False (fst (select_rows
           (srt False (filter (eligible yr) df))
           P sz mx mn (case rr of None \<Rightarrow> default_role_requirements | Some d \<Rightarrow> d)))"
  using assms unfolding select_squad_def by (simp add: Let_def split: if_splits)

lemma select_rows_from_pool:
  "r \<in> set (fst (select_rows cands P sz mx mn reqs)) \<Longrightarrow>
   r \<in> set cands \<and> (country_bucket r = Some ''Overseas'' \<or> country_bucket r = Some ''Indian'')"
proof -
  have "(\<lambda>sel sp. \<forall>r\<in>set sel. r \<in> set cands
            \<and> (country_bucket r = Some ''Overseas'' \<or> country_bucket r = Some ''Indian''))
          (fst (select_rows cands P sz mx mn reqs)) (snd (select_rows cands P sz mx mn reqs))"
    by (rule select_rows_invariant) auto
  then show "r \<in> set (fst (select_rows cands P sz mx mn reqs)) \<Longrightarrow>
   r \<in> set cands \<and> (country_bucket r = Some ''Overseas'' \<or> country_bucket r = Some ''Indian'')"
    by simp
qed

section \<open>Only the two named buckets are ever selected\<close>

text \<open>
  C10. Phase 1 reads only the rows whose \<open>country_bucket\<close> is \<open>Overseas\<close>, phases 2
  and 3 only those whose bucket is \<open>Indian\<close>. So a row with any other bucket, a missing
  one included, is in no roster that \<open>select_squad\<close> returns, whatever slots and budget
  remain.
\<close>

theorem select_squad_other_bucket_excluded:
  assumes "sort_values_spec srt"
    and "select_squad srt df yr total_purse squad_size max_overseas min_overseas role_requirements = Inr roster"
    and "country_bucket r \<noteq> Some ''Overseas''" and "country_bucket r \<noteq> Some ''Indian''"
  shows "r \<notin> set roster"
proof
  assume "r \<in> set roster"
  then have "r \<in> set (fst (select_rows
           (srt False (filter (eligible yr) df))
           total_purse squad_size max_overseas min_overseas
           (case role_requirements of None \<Rightarrow> default_role_requirements | Some d \<Rightarrow> d)))"
    using select_squad_Inr[OF assms(2)] sort_values_set[OF assms(1)] by simp
  from select_rows_from_pool[OF this] assms(3,4) show False by simp
qed

theorem select_squad_other_bucket_excluded_witness:
  "sort_values_spec (pd_sort score_key)
   \<and> select_squad (pd_sort score_key) auction_2025 2025 100 9 3 1 None
       = Inr [auction_2025 ! 0, auction_2025 ! 1, auction_2025 ! 3]
   \<and> country_bucket (auction_2025 ! 6) \<noteq> Some ''Overseas''
   \<and> country_bucket (auction_2025 ! 6) \<noteq> Some ''Indian''
   \<and> auction_2025 ! 6 \<notin> set [auction_2025 ! 0, auction_2025 ! 1, auction_2025 ! 3]"
proof -
  have run: "select_squad (pd_sort score_key) auction_2025 2025 100 9 3 1 None
       = Inr [auction_2025 ! 0, auction_2025 ! 1, auction_2025 ! 3]"
    by code_simp
  have b1: "country_bucket (auction_2025 ! 6) \<noteq> Some ''Overseas''"
    and b2: "country_bucket (auction_2025 ! 6) \<noteq> Some ''Indian''"
    by (simp_all add: auction_2025_def)
  from select_squad_other_bucket_excluded[OF pd_sort_spec run b1 b2] run pd_sort_spec b1 b2
  show ?thesis by simp
qed

section \<open>No key is selected twice\<close>





section \<open>Rows without a score or without a price\<close>


lemma phase1_no_room:
  "oc \<ge> mx \<Longrightarrow> phase1 P sz mx mn rows (sel, sp, oc) = (sel, sp, oc)"
  by (induction rows) simp_all







lemma phase1_floor_above_cap:
  "mx < mn \<Longrightarrow> phase1 P sz mx mn rows st = phase1 P sz mx mx rows st"
proof (induction rows arbitrary: st)
  case Nil
  show ?case by simp
next
  case (Cons row rows)
  obtain sel sp oc where st: "st = (sel, sp, oc)" using prod_cases3 by blast
  show ?case
  proof (cases "oc \<ge> mx")
    case True
    then show ?thesis unfolding st by (simp only: phase1_no_room)
  next
    case False
    then show ?thesis using Cons.IH[OF Cons.prems] Cons.prems by (simp add: st)
  qed
qed

lemma select_rows_size_nonpositive:
  assumes "sz \<le> 0"
  shows "fst (select_rows cands P sz mx mn reqs) = []"
proof -
  have "(\<lambda>sel sp. sel = []) (fst (select_rows cands P sz mx mn reqs))
          (snd (select_rows cands P sz mx mn reqs))"
    by (rule select_rows_invariant) (use assms in auto)
  then show ?thesis .
qed



section \<open>No validation of the parameters\<close>

text \<open>
  C5, as stated: contradictory parameters make \<open>select_squad\<close> fail before any
  selection. The code does not: with \<open>max_overseas = 1\<close> and \<open>min_overseas = 2\<close> it
  returns a roster of three.
\<close>

theorem select_squad_no_validation_counterexample:
  "(1::int) < 2 \<and> select_squad (pd_sort score_key) auction_2025 2025 100 9 1 2 None
     = Inr [auction_2025 ! 0, auction_2025 ! 1, auction_2025 ! 3]"
  by code_simp

text \<open>
  C5, amended. \<open>select_squad\<close> checks none of its parameters. With
  \<open>min_overseas > max_overseas\<close> it runs the selection and returns what it returns for
  \<open>min_overseas = max_overseas\<close>: the cap binds and the floor is never reached. With
  \<open>squad_size \<le> 0\<close> the three phases select no row.
\<close>

theorem select_squad_no_validation:
  "(max_overseas < min_overseas \<longrightarrow>
      select_squad srt df yr total_purse squad_size max_overseas min_overseas role_requirements
      = select_squad srt df yr total_purse squad_size max_overseas max_overseas role_requirements)
   \<and> (squad_size \<le> 0 \<longrightarrow>
      fst (select_rows candidates total_purse squad_size max_overseas min_overseas reqs) = [])"
proof (intro conjI impI)
  assume "max_overseas < min_overseas"
  then have "\<And>cands reqs. select_rows cands total_purse squad_size max_overseas min_overseas reqs
      = select_rows cands total_purse squad_size max_overseas max_overseas reqs"
    unfolding select_rows_def by (simp only: phase1_floor_above_cap)
  then show "select_squad srt df yr total_purse squad_size max_overseas min_overseas role_requirements
      = select_squad srt df yr total_purse squad_size max_overseas max_overseas role_requirements"
    unfolding select_squad_def by simp
next
  assume "squad_size \<le> 0"
  then show "fst (select_rows candidates total_purse squad_size max_overseas min_overseas reqs) = []"
    by (rule select_rows_size_nonpositive)
qed

theorem select_squad_no_validation_witness:
  "((1::int) < 2 \<and>
      select_squad (pd_sort score_key) auction_2025 2025 100 9 1 2 None
      = select_squad (pd_sort score_key) auction_2025 2025 100 9 1 1 None)
   \<and> ((0::int) \<le> 0 \<and>
      fst (select_rows auction_2025 100 0 1 2 default_role_requirements) = [])"
  using select_squad_no_validation[where max_overseas = 1 and min_overseas = 2
      and srt = "pd_sort score_key" and df = auction_2025 and yr = 2025 and total_purse = 100
      and squad_size = 9 and role_requirements = None]
    select_squad_no_validation[where max_overseas = 1 and min_overseas = 2
      and total_purse = 100 and squad_size = 0 and candidates = auction_2025
      and reqs = default_role_requirements]
  by simp

section \<open>An empty pool\<close>

text \<open>
  C3. With no eligible candidate the selector should return an empty roster and raise
  nothing. \<open>select_starting_xi\<close> does so, but \<open>select_squad\<close> raises KeyError: no
  row of \<open>auction_2025\<close> is of 2026, and the frame built from the empty list of selected
  rows has no column to sort by.
\<close>

theorem select_squad_empty_pool_raises:
  "filter (eligible 2026) auction_2025 = []
   \<and> select_squad (pd_sort score_key) auction_2025 2026 100 9 3 1 None = Inl KeyError
   \<and> select_squad (pd_sort score_key) [] 2025 100 9 3 1 None = Inl KeyError
   \<and> select_starting_xi (pd_sort final_score) [] ''balanced'' 4 = ([], None)"
  by code_simp


section \<open>The repair loops of \<open>select_starting_xi\<close> keep an invariant\<close>

lemma hd_sorted_in:
  assumes "sort_values_spec srt" and "srt asc xs = y # ys"
  shows "y \<in> set xs"
  using sort_values_set[OF assms(1), of asc xs] assms(2) by auto

lemma find_in:
  "find P xs = Some y \<Longrightarrow> y \<in> set xs \<and> P y"
  by (induction xs) (auto split: if_splits)

lemma bring_in_bowlers_invariant:
  assumes "sort_values_spec srt" and "swap_closed srt mx I" and "I st"
  shows "I (fst (bring_in_bowlers srt mx n (st, ch)))"
  using assms(3)
proof (induction n arbitrary: st ch)
  case 0
  then show ?case by simp
next
  case (Suc n)
  obtain xi rem where st: "st = (xi, rem)" by (cases st)
  show ?case
  proof (cases "srt False (filter is_bowler_spec rem)")
    case Nil
    then show ?thesis using Suc.prems by (simp add: st)
  next
    case (Cons in_row rest)
    have inr: "in_row \<in> set rem" using hd_sorted_in[OF assms(1) Cons] by simp
    show ?thesis
    proof (cases "find (\<lambda>out_row. overseas_after (overseas (recompute_counts xi)) out_row in_row \<le> mx)
                       (srt True (filter (\<lambda>r. \<not> is_bowler_spec r \<and> \<not> is_keeper r) xi))")
      case None
      then show ?thesis using Suc.prems Cons by (simp add: st)
    next
      case (Some out_row)
      from find_in[OF Some] have "out_row \<in> set xi"
        and "overseas_after (overseas (recompute_counts xi)) out_row in_row \<le> mx"
        using sort_values_set[OF assms(1)] by auto
      then have "I (swap_rows srt out_row in_row (xi, rem))"
        using assms(2) Suc.prems inr unfolding swap_closed_def st by blast
      from Suc.IH[OF this] show ?thesis using Suc.prems Cons Some by (simp add: st)
    qed
  qed
qed

lemma take_out_bowlers_invariant:
  assumes "sort_values_spec srt" and "swap_closed srt mx I" and "I st"
  shows "I (fst (take_out_bowlers srt mx n (st, ch)))"
  using assms(3)
proof (induction n arbitrary: st ch)
  case 0
  then show ?case by simp
next
  case (Suc n)
  obtain xi rem where st: "st = (xi, rem)" by (cases st)
  show ?case
  proof (cases "srt True (filter (\<lambda>r. is_bowler_spec r \<and> \<not> is_keeper r) xi)")
    case Nil
    then show ?thesis using Suc.prems by (simp add: st)
  next
    case (Cons out_row rest)
    have outr: "out_row \<in> set xi" using hd_sorted_in[OF assms(1) Cons] by simp
    show ?thesis
    proof (cases "find (\<lambda>in_row. overseas_after (overseas (recompute_counts xi)) out_row in_row \<le> mx)
                       (srt False (filter (\<lambda>r. \<not> is_bowler_spec r) rem))")
      case None
      then show ?thesis using Suc.prems Cons by (simp add: st)
    next
      case (Some in_row)
      from find_in[OF Some] have "in_row \<in> set rem"
        and "overseas_after (overseas (recompute_counts xi)) out_row in_row \<le> mx"
        using sort_values_set[OF assms(1)] by auto
      then have "I (swap_rows srt out_row in_row (xi, rem))"
        using assms(2) Suc.prems outr unfolding swap_closed_def st by blast
      from Suc.IH[OF this] show ?thesis using Suc.prems Cons Some by (simp add: st)
    qed
  qed
qed

lemma enforce_bowlers_invariant:
  assumes "sort_values_spec srt" and "swap_closed srt mx I" and "I st"
  shows "I (enforce_bowlers srt mx iters st)"
  using assms(3)
proof (induction iters arbitrary: st)
  case 0
  then show ?case by simp
next
  case (Suc iters)
  obtain xi rem where st: "st = (xi, rem)" by (cases st)
  let ?bc = "bowlers (recompute_counts xi)"
  let ?a = "bring_in_bowlers srt mx (nat (MIN_SPECIAL_BOWLERS - ?bc)) ((xi, rem), False)"
  let ?b = "take_out_bowlers srt mx (nat (?bc - MAX_SPECIAL_BOWLERS)) ((xi, rem), False)"
  obtain sa ca where a: "?a = (sa, ca)" by (cases ?a)
  obtain sb cb where b: "?b = (sb, cb)" by (cases ?b)
  have i0: "I (xi, rem)" using Suc.prems st by simp
  have "I (fst ?a)" by (rule bring_in_bowlers_invariant[OF assms(1,2) i0])
  then have ia: "I sa" by (simp add: a)
  have "I (fst ?b)" by (rule take_out_bowlers_invariant[OF assms(1,2) i0])
  then have ib: "I sb" by (simp add: b)
  have ia': "I (enforce_bowlers srt mx iters sa)" by (rule Suc.IH[OF ia])
  have ib': "I (enforce_bowlers srt mx iters sb)" by (rule Suc.IH[OF ib])
  show ?case
    using Suc.prems ia ib ia' ib'
    by (simp add: st Let_def a b)
qed

lemma bring_in_allrounders_invariant:
  assumes "sort_values_spec srt" and "swap_closed srt mx I" and "I st"
  shows "I (bring_in_allrounders srt mx n st)"
  using assms(3)
proof (induction n arbitrary: st)
  case 0
  then show ?case by simp
next
  case (Suc n)
  obtain xi rem where st: "st = (xi, rem)" by (cases st)
  show ?case
  proof (cases "srt False (filter is_allrounder rem)")
    case Nil
    then show ?thesis using Suc.prems by (simp add: st)
  next
    case (Cons in_row rest)
    have inr: "in_row \<in> set rem" using hd_sorted_in[OF assms(1) Cons] by simp
    show ?thesis
    proof (cases "find (\<lambda>out_row. overseas_after (overseas (recompute_counts xi)) out_row in_row \<le> mx)
                       (srt True (filter (\<lambda>r. \<not> is_allrounder r \<and> \<not> is_bowler_spec r \<and> \<not> is_keeper r) xi))")
      case None
      then show ?thesis using Suc.prems Cons by (simp add: st Let_def)
    next
      case (Some out_row)
      from find_in[OF Some] have "out_row \<in> set xi"
        and "overseas_after (overseas (recompute_counts xi)) out_row in_row \<le> mx"
        using sort_values_set[OF assms(1)] by auto
      then have "I (swap_rows srt out_row in_row (xi, rem))"
        using assms(2) Suc.prems inr unfolding swap_closed_def st by blast
      from Suc.IH[OF this] show ?thesis using Suc.prems Cons Some by (simp add: st Let_def)
    qed
  qed
qed

lemma enforce_allrounders_invariant:
  assumes "sort_values_spec srt" and "swap_closed srt mx I" and "I st"
  shows "I (enforce_allrounders srt mx st)"
  using bring_in_allrounders_invariant[OF assms] assms(3)
  by (cases st) (simp add: enforce_allrounders_def Let_def)

section \<open>No player is twice in the XI\<close>

lemma names_distinct_swap:
  assumes "sort_values_spec srt"
  shows "swap_closed srt mx names_distinct"
  unfolding swap_closed_def
proof (intro allI impI)
  fix xi rem out_row in_row
  assume h: "names_distinct (xi, rem) \<and> in_row \<in> set rem \<and> out_row \<in> set xi
        \<and> overseas_after (overseas (recompute_counts xi)) out_row in_row \<le> mx"
  let ?xi' = "filter (\<lambda>r. Player r \<noteq> Player out_row) xi @ [in_row]"
  let ?rem' = "filter (\<lambda>r. Player r \<noteq> Player in_row) rem @ [out_row]"
  from h have d: "distinct (map Player xi)" "distinct (map Player rem)"
    and dis: "Player ` set xi \<inter> Player ` set rem = {}"
    and inr: "in_row \<in> set rem" and outr: "out_row \<in> set xi"
    by (auto simp: names_distinct_def)
  have a: "Player in_row \<notin> Player ` set xi" using dis inr by auto
  have b: "Player out_row \<notin> Player ` set rem" using dis outr by auto
  have d1: "distinct (map Player ?xi')" using d(1) a by (auto simp: distinct_map_filter)
  have d2: "distinct (map Player ?rem')" using d(2) b by (auto simp: distinct_map_filter)
  have ne: "Player out_row \<noteq> Player in_row" by (metis a outr imageI)
  have d3: "Player ` set ?xi' \<inter> Player ` set ?rem' = {}" using dis a b ne by auto
  have "distinct (map Player (?xi' @ ?rem'))"
    using d1 d2 d3 by (simp only: map_append distinct_append set_map) simp
  moreover have "mset (map Player (srt False ?xi' @ ?rem')) = mset (map Player (?xi' @ ?rem'))"
    using sort_values_map[OF assms, of Player False ?xi'] by simp
  ultimately have "distinct (map Player (srt False ?xi' @ ?rem'))"
    using mset_eq_imp_distinct_iff by blast
  then show "names_distinct (swap_rows srt out_row in_row (xi, rem))"
    by (simp add: names_distinct_def swap_rows_def)
qed

lemma initial_xi_names_distinct:
  assumes "sort_values_spec srt" and "distinct (map Player df_team)"
  shows "names_distinct (initial_xi srt mx df_team)"
proof -
  obtain S where S: "initial_xi srt mx df_team =
      (srt False (filter (\<lambda>r. Player r \<in> S) df_team), filter (\<lambda>r. Player r \<notin> S) df_team)"
    unfolding initial_xi_def Let_def by blast
  let ?a = "filter (\<lambda>r. Player r \<in> S) df_team"
  let ?b = "filter (\<lambda>r. Player r \<notin> S) df_team"
  have "distinct (map Player (?a @ ?b))"
    using assms(2) by (auto simp: distinct_map_filter)
  moreover have "mset (map Player (srt False ?a @ ?b)) = mset (map Player (?a @ ?b))"
    using sort_values_map[OF assms(1), of Player False ?a] by simp
  ultimately have "distinct (map Player (srt False ?a @ ?b))"
    using mset_eq_imp_distinct_iff by blast
  then show ?thesis by (simp add: names_distinct_def S)
qed





section \<open>The allrounder rule\<close>

lemma filter_name_count:
  "distinct (map Player xi) \<Longrightarrow> out_row \<in> set xi \<Longrightarrow>
   int (length (filter P (filter (\<lambda>r. Player r \<noteq> Player out_row) xi)))
   = int (length (filter P xi)) - of_bool (P out_row)"
proof (induction xi)
  case Nil
  then show ?case by simp
next
  case (Cons x xi)
  show ?case
  proof (cases "x = out_row")
    case True
    have "Player x \<notin> Player ` set xi" using Cons.prems(1) by simp
    then have "\<forall>r\<in>set xi. Player r \<noteq> Player out_row" using True by (metis imageI)
    then have "filter (\<lambda>r. Player r \<noteq> Player out_row) xi = xi" by (simp add: filter_id_conv)
    then show ?thesis using True by simp
  next
    case False
    then have o: "out_row \<in> set xi" using Cons.prems(2) by simp
    have "Player x \<notin> Player ` set xi" using Cons.prems(1) by simp
    then have "Player x \<noteq> Player out_row" using o by (metis imageI)
    then show ?thesis using Cons.IH[OF _ o] Cons.prems(1) by simp
  qed
qed

lemma swap_rows_count:
  assumes "sort_values_spec srt" and "distinct (map Player xi)" and "out_row \<in> set xi"
  shows "int (length (filter P (fst (swap_rows srt out_row in_row (xi, rem)))))
         = int (length (filter P xi)) - of_bool (P out_row) + of_bool (P in_row)"
proof -
  have "length (filter P (fst (swap_rows srt out_row in_row (xi, rem))))
        = length (filter P (filter (\<lambda>r. Player r \<noteq> Player out_row) xi @ [in_row]))"
    by (simp add: swap_rows_def sort_values_filter_length[OF assms(1)])
  then show ?thesis using filter_name_count[OF assms(2,3), of P] by simp
qed

lemma fill_rest_keeps:
  "set sel \<subseteq> set (fst (fill_rest mx rows (sel, oc)))"
proof (induction rows arbitrary: sel oc)
  case Nil
  show ?case by simp
next
  case (Cons row rows)
  have a: "set sel \<subseteq> set (fst (fill_rest mx rows (sel, oc)))" by (rule Cons.IH)
  have b: "set sel \<subseteq> set (fst (fill_rest mx rows (sel @ [Player row],
        if is_overseas row then oc + 1 else oc)))"
    using Cons.IH[of "sel @ [Player row]"] by auto
  show ?case using a b by simp
qed

lemma initial_xi_has_keeper:
  assumes "sort_values_spec srt" and "filter is_keeper df_team \<noteq> []"
  shows "keepers (recompute_counts (fst (initial_xi srt mx df_team))) \<ge> 1"
proof -
  obtain k ks where k: "srt False (filter is_keeper df_team) = k # ks"
    using assms(2) sort_values_Nil[OF assms(1), of False "filter is_keeper df_team"]
    by (cases "srt False (filter is_keeper df_team)") auto
  have kin: "k \<in> set df_team" and kk: "is_keeper k"
    using hd_sorted_in[OF assms(1) k] by auto
  define sel where "sel = fst (fill_rest mx (srt False df_team)
      ([Player k], if is_overseas k then 1 else 0))"
  have "Player k \<in> set sel"
    unfolding sel_def using fill_rest_keeps[of "[Player k]" mx "srt False df_team"] by auto
  then have "k \<in> set (filter is_keeper (srt False (filter (\<lambda>r. Player r \<in> set sel) df_team)))"
    using kin kk by (simp add: sort_values_set[OF assms(1)])
  then have "filter is_keeper (srt False (filter (\<lambda>r. Player r \<in> set sel) df_team)) \<noteq> []"
    by (metis empty_iff empty_set)
  then have "1 \<le> length (filter is_keeper (srt False (filter (\<lambda>r. Player r \<in> set sel) df_team)))"
    by (simp add: Suc_le_eq)
  moreover have "fst (initial_xi srt mx df_team) = srt False (filter (\<lambda>r. Player r \<in> set sel) df_team)"
    by (simp add: initial_xi_def k sel_def Let_def)
  ultimately show ?thesis by (simp add: recompute_counts_def)
qed

lemma enforce_bowlers_in_band:
  "MIN_SPECIAL_BOWLERS \<le> bowlers (recompute_counts xi) \<Longrightarrow>
   bowlers (recompute_counts xi) \<le> MAX_SPECIAL_BOWLERS \<Longrightarrow>
   enforce_bowlers srt mx iters (xi, rem) = (xi, rem)"
  by (cases iters) (simp_all add: Let_def)

lemma ensure_keeper_noop:
  "keepers (recompute_counts xi) \<noteq> 0 \<or> filter is_keeper df_team = [] \<Longrightarrow>
   ensure_keeper srt mx df_team (xi, rem) = (xi, rem)"
  by (auto simp: ensure_keeper_def Let_def)

lemma find_exists:
  "\<exists>x\<in>set xs. P x \<Longrightarrow> \<exists>y. find P xs = Some y"
  by (cases "find P xs") (auto simp: find_None_iff)

text \<open>
  C8, as stated: if the seed XI has exactly 4 specialist bowlers and 1 allrounder, and some
  bench allrounder can replace the weakest pure batter within the overseas cap, the final
  XI has at least 2 allrounders. On \<open>team_b\<close> with \<open>max_overseas = 1\<close> the bench
  allrounder A3 can replace T5, but step 6 only tries row 0 of the bench allrounders, the
  overseas A2, whom no swap admits: the XI keeps its single allrounder.
\<close>

theorem allrounder_repair_any_bench_allrounder_counterexample:
  "bowlers (recompute_counts (fst (initial_xi (pd_sort final_score) 1 team_b))) = 4
   \<and> allrounders (recompute_counts (fst (initial_xi (pd_sort final_score) 1 team_b))) = 1
   \<and> team_b ! 12 \<in> set (snd (initial_xi (pd_sort final_score) 1 team_b))
   \<and> is_allrounder (team_b ! 12)
   \<and> hd (pd_sort final_score True
            (filter is_pure_batter (fst (initial_xi (pd_sort final_score) 1 team_b)))) = team_b ! 10
   \<and> overseas_after (overseas (recompute_counts (fst (initial_xi (pd_sort final_score) 1 team_b))))
        (team_b ! 10) (team_b ! 12) \<le> 1
   \<and> allrounders (recompute_counts
        (fst (select_starting_xi (pd_sort final_score) team_b ''balanced'' 1))) = 1"
  by code_simp

text \<open>
  C8, amended. On a team with unique player names, if the seed XI has exactly 4 specialist
  bowlers and 1 allrounder, and the best bench allrounder (row 0 of the bench allrounders
  sorted by score, the only one step 6 tries) can replace some incumbent pure batter with
  the overseas count staying within \<open>max_overseas\<close>, then the final XI has at least 2
  allrounders and still 4 specialist bowlers.
\<close>

theorem allrounder_repair_best_bench_allrounder:
  assumes "sort_values_spec srt" and "distinct (map Player df_team)"
    and "initial_xi srt max_overseas df_team = (xi0, remaining0)"
    and "bowlers (recompute_counts xi0) = 4" and "allrounders (recompute_counts xi0) = 1"
    and "srt False (filter is_allrounder remaining0) = in_row # rest"
    and "\<exists>out_row\<in>set xi0. \<not> is_allrounder out_row \<and> \<not> is_bowler_spec out_row \<and> \<not> is_keeper out_row
           \<and> overseas_after (overseas (recompute_counts xi0)) out_row in_row \<le> max_overseas"
  shows "allrounders (recompute_counts (fst (select_starting_xi srt df_team pitch_type max_overseas))) \<ge> 2
       \<and> bowlers (recompute_counts (fst (select_starting_xi srt df_team pitch_type max_overseas))) = 4"
proof -
  let ?pure = "\<lambda>r. \<not> is_allrounder r \<and> \<not> is_bowler_spec r \<and> \<not> is_keeper r"
  let ?ok = "\<lambda>out_row. overseas_after (overseas (recompute_counts xi0)) out_row in_row \<le> max_overseas"
  have xi0_ne: "xi0 \<noteq> []" using assms(4) by (auto simp: recompute_counts_def)
  have df_ne: "df_team \<noteq> []"
  proof
    assume "df_team = []"
    then have "xi0 = []" using assms(3) sort_values_Nil[OF assms(1), of False "[]"]
      by (simp add: initial_xi_def Let_def)
    then show False using xi0_ne by simp
  qed
  have d0: "distinct (map Player xi0)"
    using initial_xi_names_distinct[OF assms(1,2), of max_overseas]
    by (simp add: assms(3) names_distinct_def)
  have st5: "enforce_bowlers srt max_overseas 20 (xi0, remaining0) = (xi0, remaining0)"
    by (rule enforce_bowlers_in_band)
       (simp_all add: assms(4) MIN_SPECIAL_BOWLERS_def MAX_SPECIAL_BOWLERS_def)
  have "\<exists>x\<in>set (srt True (filter ?pure xi0)). ?ok x"
    using assms(7) by (simp add: sort_values_set[OF assms(1)]) blast
  from find_exists[OF this] obtain out_row
    where f: "find ?ok (srt True (filter ?pure xi0)) = Some out_row" by blast
  from find_in[OF f] have out_in: "out_row \<in> set xi0" and out_pure: "?pure out_row"
    by (simp_all add: sort_values_set[OF assms(1)])
  have cand_ne: "srt True (filter ?pure xi0) \<noteq> []" using f by auto
  have in_ar: "is_allrounder in_row" using hd_sorted_in[OF assms(1,6)] by simp
  then have in_nb: "\<not> is_bowler_spec in_row" by (simp add: is_allrounder_def is_bowler_spec_def)
  have round: "bring_in_allrounders srt max_overseas (Suc 0) (xi0, remaining0)
        = swap_rows srt out_row in_row (xi0, remaining0)"
    using assms(5,6) f cand_ne by (simp add: MIN_ALLROUNDERS_IF_4_def Let_def)
  have st6: "enforce_allrounders srt max_overseas (xi0, remaining0)
        = swap_rows srt out_row in_row (xi0, remaining0)"
    using round assms(4,5)
    by (simp add: enforce_allrounders_def Let_def MIN_SPECIAL_BOWLERS_def MIN_ALLROUNDERS_IF_4_def)
  obtain xi6 rem6 where sw: "swap_rows srt out_row in_row (xi0, remaining0) = (xi6, rem6)"
    by (cases "swap_rows srt out_row in_row (xi0, remaining0)")
  have cnt: "\<And>P. int (length (filter P xi6))
        = int (length (filter P xi0)) - of_bool (P out_row) + of_bool (P in_row)"
    using swap_rows_count[OF assms(1) d0 out_in, of _ in_row remaining0] by (simp add: sw)
  have ar6: "allrounders (recompute_counts xi6) = 2"
    using cnt[of is_allrounder] assms(5) out_pure in_ar by (simp add: recompute_counts_def)
  have bw6: "bowlers (recompute_counts xi6) = 4"
    using cnt[of is_bowler_spec] assms(4) out_pure in_nb by (simp add: recompute_counts_def)
  have kp6: "keepers (recompute_counts xi6) \<ge> keepers (recompute_counts xi0)"
    using cnt[of is_keeper] out_pure by (simp add: recompute_counts_def)
  have "keepers (recompute_counts xi6) \<noteq> 0 \<or> filter is_keeper df_team = []"
  proof (cases "filter is_keeper df_team = []")
    case True
    then show ?thesis by simp
  next
    case False
    from initial_xi_has_keeper[OF assms(1) False, of max_overseas]
    have "keepers (recompute_counts xi0) \<ge> 1" by (simp add: assms(3))
    then show ?thesis using kp6 by simp
  qed
  then have st7: "ensure_keeper srt max_overseas df_team (xi6, rem6) = (xi6, rem6)"
    by (rule ensure_keeper_noop)
  have res: "fst (select_starting_xi srt df_team pitch_type max_overseas) = srt False xi6"
    using df_ne xi0_ne by (simp add: select_starting_xi_def assms(3) st5 st6 sw st7 Let_def)
  show ?thesis
    using ar6 bw6 unfolding res
    by (simp add: recompute_counts_def sort_values_filter_length[OF assms(1)])
qed

theorem allrounder_repair_best_bench_allrounder_witness:
  "sort_values_spec (pd_sort final_score :: bool \<Rightarrow> xi_row list \<Rightarrow> xi_row list) \<and> distinct (map Player team_b)
   \<and> initial_xi (pd_sort final_score) 2 team_b = (take 11 team_b, drop 11 team_b)
   \<and> bowlers (recompute_counts (take 11 team_b)) = 4
   \<and> allrounders (recompute_counts (take 11 team_b)) = 1
   \<and> pd_sort final_score False (filter is_allrounder (drop 11 team_b)) = [team_b ! 11, team_b ! 12]
   \<and> (\<exists>out_row\<in>set (take 11 team_b).
         \<not> is_allrounder out_row \<and> \<not> is_bowler_spec out_row \<and> \<not> is_keeper out_row
         \<and> overseas_after (overseas (recompute_counts (take 11 team_b))) out_row (team_b ! 11) \<le> 2)
   \<and> allrounders (recompute_counts
        (fst (select_starting_xi (pd_sort final_score) team_b ''balanced'' 2))) \<ge> 2
   \<and> bowlers (recompute_counts
        (fst (select_starting_xi (pd_sort final_score) team_b ''balanced'' 2))) = 4"
proof -
  have h2: "distinct (map Player team_b)" by code_simp
  have h3: "initial_xi (pd_sort final_score) 2 team_b = (take 11 team_b, drop 11 team_b)"
    by code_simp
  have h4: "bowlers (recompute_counts (take 11 team_b)) = 4" by code_simp
  have h5: "allrounders (recompute_counts (take 11 team_b)) = 1" by code_simp
  have h6: "pd_sort final_score False (filter is_allrounder (drop 11 team_b))
      = team_b ! 11 # [team_b ! 12]" by code_simp
  have h7: "\<exists>out_row\<in>set (take 11 team_b).
         \<not> is_allrounder out_row \<and> \<not> is_bowler_spec out_row \<and> \<not> is_keeper out_row
         \<and> overseas_after (overseas (recompute_counts (take 11 team_b))) out_row (team_b ! 11) \<le> 2"
    by code_simp
  from allrounder_repair_best_bench_allrounder[OF pd_sort_spec h2 h3 h4 h5 h6 h7, of "''balanced''"]
    pd_sort_spec h2 h3 h4 h5 h6 h7
  show ?thesis by simp
qed

section \<open>The overseas cap\<close>

text \<open>
  What holds of the cap. A roster of \<open>select_squad\<close> has at most \<open>max_overseas\<close>
  overseas rows when the cap is not negative; an XI of \<open>select_starting_xi\<close> has when
  the cap is at least 1 and the names are unique: then the locked keeper fits, and the fill
  loop, every swap of the repair loops and the keeper step compare with the cap.
\<close>

lemma select_squad_overseas_cap:
  assumes "sort_values_spec srt" and "0 \<le> max_overseas"
    and "select_squad srt df yr total_purse squad_size max_overseas min_overseas role_requirements = Inr roster"
  shows "overseas_count_of roster \<le> max_overseas"
proof -
  let ?cands = "srt False (filter (eligible yr) df)"
  let ?reqs = "case role_requirements of None \<Rightarrow> default_role_requirements | Some d \<Rightarrow> d"
  let ?ov = "filter (\<lambda>r. country_bucket r = Some ''Overseas'') ?cands"
  let ?ind = "filter (\<lambda>r. country_bucket r = Some ''Indian'') ?cands"
  obtain s1 p1 oc where p1: "phase1 total_purse squad_size max_overseas min_overseas ?ov ([], 0, 0) = (s1, p1, oc)"
    using prod_cases3 by blast
  obtain s2 k2 p2 where p2: "phase2 total_purse squad_size ?cands ?reqs (s1, row_key ` set s1, p1) = (s2, k2, p2)"
    using prod_cases3 by blast
  obtain s3 k3 p3 where p3: "phase3 total_purse squad_size ?ind (s2, k2, p2) = (s3, k3, p3)"
    using prod_cases3 by blast
  have "(\<lambda>(sel, sp, oc). overseas_count_of sel = oc \<and> oc \<le> max_overseas)
          (phase1 total_purse squad_size max_overseas min_overseas ?ov ([], 0, 0))"
    by (rule phase1_invariant) (use assms(2) in \<open>auto simp: overseas_count_of_def\<close>)
  then have c1: "overseas_count_of s1 \<le> max_overseas" by (simp add: p1)
  have "(\<lambda>(sel, ks, sp). overseas_count_of sel \<le> max_overseas)
          (phase2 total_purse squad_size ?cands ?reqs (s1, row_key ` set s1, p1))"
    by (rule phase2_invariant) (use c1 in \<open>auto simp: overseas_count_of_def\<close>)
  then have c2: "overseas_count_of s2 \<le> max_overseas" by (simp add: p2)
  have "(\<lambda>(sel, ks, sp). overseas_count_of sel \<le> max_overseas)
          (phase3 total_purse squad_size ?ind (s2, k2, p2))"
    by (rule phase3_invariant) (use c2 in \<open>auto simp: overseas_count_of_def\<close>)
  then have c3: "overseas_count_of s3 \<le> max_overseas" by (simp add: p3)
  have "select_rows ?cands total_purse squad_size max_overseas min_overseas ?reqs = (s3, p3)"
    unfolding select_rows_def using p1 p2 p3 by simp
  then have "roster = srt False s3" using select_squad_Inr[OF assms(3)] by simp
  then show ?thesis
    using c3 by (simp add: overseas_count_of_def sort_values_filter_length[OF assms(1)])
qed

lemma name_insert_count:
  "distinct (map Player df) \<Longrightarrow> row \<in> set df \<Longrightarrow> Player row \<notin> S \<Longrightarrow>
   int (length (filter P (filter (\<lambda>r. Player r \<in> insert (Player row) S) df)))
   = int (length (filter P (filter (\<lambda>r. Player r \<in> S) df))) + of_bool (P row)"
proof (induction df)
  case Nil
  then show ?case by simp
next
  case (Cons x df)
  have nx: "Player x \<notin> Player ` set df" using Cons.prems(1) by simp
  show ?case
  proof (cases "x = row")
    case True
    have "\<forall>r\<in>set df. Player r \<noteq> Player row" using nx True by (metis imageI)
    then have "filter (\<lambda>r. Player r \<in> insert (Player row) S) df = filter (\<lambda>r. Player r \<in> S) df"
      by (auto intro: filter_cong)
    then show ?thesis using True Cons.prems(3) by simp
  next
    case False
    then have r: "row \<in> set df" using Cons.prems(2) by simp
    then have "Player x \<noteq> Player row" using nx by (metis imageI)
    then show ?thesis using Cons.IH[OF _ r Cons.prems(3)] Cons.prems(1) by simp
  qed
qed

lemma fill_rest_seed_inv:
  assumes "distinct (map Player df)"
  shows "set rows \<subseteq> set df \<Longrightarrow> seed_inv mx df (sel, oc) \<Longrightarrow>
         seed_inv mx df (fill_rest mx rows (sel, oc))"
proof (induction rows arbitrary: sel oc)
  case Nil
  then show ?case by simp
next
  case (Cons row rows)
  have sub: "set rows \<subseteq> set df" and mem: "row \<in> set df" using Cons.prems(1) by auto
  show ?case
  proof (cases "length sel \<ge> 11")
    case True
    then show ?thesis using Cons.prems(2) by simp
  next
    case short: False
    show ?thesis
    proof (cases "Player row \<in> set sel")
      case True
      then show ?thesis using short Cons.IH[OF sub Cons.prems(2)] by simp
    next
      case new: False
      show ?thesis
      proof (cases "is_overseas row \<and> oc \<ge> mx")
        case True
        then show ?thesis using short new Cons.IH[OF sub Cons.prems(2)] by simp
      next
        case False
        have "seed_inv mx df (sel @ [Player row], if is_overseas row then oc + 1 else oc)"
          using Cons.prems(2) False name_insert_count[OF assms mem new, of is_overseas]
          by (auto simp: seed_inv_def)
        from Cons.IH[OF sub this] show ?thesis using short new False by auto
      qed
    qed
  qed
qed

lemma initial_xi_overseas_cap:
  assumes "sort_values_spec srt" and "distinct (map Player df_team)" and "1 \<le> mx"
  shows "overseas (recompute_counts (fst (initial_xi srt mx df_team))) \<le> mx"
proof -
  define locked where "locked = (case srt False (filter is_keeper df_team) of
                      [] \<Rightarrow> ([], 0::int)
                    | k # _ \<Rightarrow> ([Player k], if is_overseas k then 1 else 0))"
  have l: "seed_inv mx df_team locked"
  proof (cases "srt False (filter is_keeper df_team)")
    case Nil
    then show ?thesis using assms(3) by (simp add: locked_def seed_inv_def)
  next
    case (Cons k ks)
    have kin: "k \<in> set df_team" using hd_sorted_in[OF assms(1) Cons] by simp
    have "int (length (filter is_overseas (filter (\<lambda>r. Player r \<in> insert (Player k) {}) df_team)))
          = int (length (filter is_overseas (filter (\<lambda>r. Player r \<in> {}) df_team))) + of_bool (is_overseas k)"
      by (rule name_insert_count[OF assms(2) kin]) simp
    then show ?thesis using assms(3) by (simp add: locked_def Cons seed_inv_def)
  qed
  obtain sel oc where f: "fill_rest mx (srt False df_team) locked = (sel, oc)"
    by (cases "fill_rest mx (srt False df_team) locked")
  have "seed_inv mx df_team (fill_rest mx (srt False df_team) (fst locked, snd locked))"
    by (rule fill_rest_seed_inv[OF assms(2)]) (simp_all add: sort_values_set[OF assms(1)] l)
  then have "int (length (filter is_overseas (filter (\<lambda>r. Player r \<in> set sel) df_team))) \<le> mx"
    by (simp add: f seed_inv_def)
  moreover have "fst (initial_xi srt mx df_team) = srt False (filter (\<lambda>r. Player r \<in> set sel) df_team)"
    using f by (simp add: initial_xi_def locked_def Let_def)
  ultimately show ?thesis
    by (simp add: recompute_counts_def sort_values_filter_length[OF assms(1)])
qed

lemma cap_inv_swap:
  assumes "sort_values_spec srt"
  shows "swap_closed srt mx (cap_inv mx)"
  unfolding swap_closed_def
proof (intro allI impI)
  fix xi rem out_row in_row
  assume h: "cap_inv mx (xi, rem) \<and> in_row \<in> set rem \<and> out_row \<in> set xi
        \<and> overseas_after (overseas (recompute_counts xi)) out_row in_row \<le> mx"
  then have nd: "names_distinct (xi, rem)" by (simp add: cap_inv_def)
  then have d: "distinct (map Player xi)" by (simp add: names_distinct_def)
  have "names_distinct (swap_rows srt out_row in_row (xi, rem))"
    using names_distinct_swap[OF assms, of mx] nd h unfolding swap_closed_def by blast
  moreover have "overseas (recompute_counts (fst (swap_rows srt out_row in_row (xi, rem))))
        = overseas_after (overseas (recompute_counts xi)) out_row in_row"
    using h swap_rows_count[OF assms d, of out_row is_overseas in_row rem]
    by (simp add: recompute_counts_def overseas_after_def)
  ultimately show "cap_inv mx (swap_rows srt out_row in_row (xi, rem))"
    using h by (simp add: cap_inv_def)
qed

lemma ensure_keeper_overseas_cap:
  assumes "sort_values_spec srt" and "distinct (map Player (fst st))"
    and "overseas (recompute_counts (fst st)) \<le> mx"
  shows "overseas (recompute_counts (fst (ensure_keeper srt mx df_team st))) \<le> mx"
proof -
  obtain xi rem where st: "st = (xi, rem)" by (cases st)
  have d: "distinct (map Player xi)" and c: "overseas (recompute_counts xi) \<le> mx"
    using assms(2,3) st by simp_all
  have sw: "overseas (recompute_counts (fst (swap_rows srt out_row k (xi, rem)))) \<le> mx"
    if "find (\<lambda>out_row. overseas_after (overseas (recompute_counts xi)) out_row k \<le> mx)
           (srt True (filter (\<lambda>r. \<not> is_keeper r) xi)) = Some out_row" for out_row k
  proof -
    from find_in[OF that] have o: "out_row \<in> set xi"
      and le: "overseas_after (overseas (recompute_counts xi)) out_row k \<le> mx"
      by (simp_all add: sort_values_set[OF assms(1)])
    show ?thesis
      using le swap_rows_count[OF assms(1) d o, of is_overseas k rem]
      by (simp add: recompute_counts_def overseas_after_def)
  qed
  show ?thesis
    unfolding st ensure_keeper_def using c sw
    by (simp add: Let_def split: option.splits)
qed

lemma select_starting_xi_overseas_cap:
  assumes "sort_values_spec srt" and "distinct (map Player df_team)" and "1 \<le> max_overseas"
  shows "overseas (recompute_counts (fst (select_starting_xi srt df_team pitch_type max_overseas)))
         \<le> max_overseas"
proof (cases "df_team = []")
  case True
  then show ?thesis using assms(3) by (simp add: select_starting_xi_def recompute_counts_def)
next
  case False
  obtain xi0 rem0 where i: "initial_xi srt max_overseas df_team = (xi0, rem0)"
    by (cases "initial_xi srt max_overseas df_team")
  show ?thesis
  proof (cases "xi0 = []")
    case True
    then show ?thesis using False assms(3)
      by (simp add: select_starting_xi_def i recompute_counts_def)
  next
    case nonempty: False
    let ?st5 = "enforce_bowlers srt max_overseas 20 (xi0, rem0)"
    let ?st6 = "enforce_allrounders srt max_overseas ?st5"
    let ?st7 = "ensure_keeper srt max_overseas df_team ?st6"
    have "cap_inv max_overseas (xi0, rem0)"
      using initial_xi_names_distinct[OF assms(1,2), of max_overseas]
        initial_xi_overseas_cap[OF assms]
      by (simp add: i cap_inv_def)
    then have "cap_inv max_overseas ?st5"
      by (rule enforce_bowlers_invariant[OF assms(1) cap_inv_swap[OF assms(1)]])
    then have "cap_inv max_overseas ?st6"
      by (rule enforce_allrounders_invariant[OF assms(1) cap_inv_swap[OF assms(1)]])
    then have "distinct (map Player (fst ?st6))"
      and "overseas (recompute_counts (fst ?st6)) \<le> max_overseas"
      by (simp_all add: cap_inv_def names_distinct_def)
    then have "overseas (recompute_counts (fst ?st7)) \<le> max_overseas"
      by (rule ensure_keeper_overseas_cap[OF assms(1)])
    then have "overseas (recompute_counts (srt False (fst ?st7))) \<le> max_overseas"
      by (simp add: recompute_counts_def sort_values_filter_length[OF assms(1)])
    then show ?thesis using False nonempty by (simp add: select_starting_xi_def i Let_def)
  qed
qed

text \<open>
  C1. No roster should hold more than \<open>max_overseas\<close> overseas players; with a cap of 0
  the XI should be all domestic even when the best keeper is from overseas. Step 4 locks
  the top keeper before it looks at the cap: on \<open>team_d\<close> with \<open>max_overseas = 0\<close> the
  overseas keeper is row 0 of the final XI.
\<close>

theorem seed_locks_overseas_keeper_over_cap:
  "is_overseas (team_d ! 0) \<and> is_keeper (team_d ! 0)
   \<and> fst (select_starting_xi (pd_sort final_score) team_d ''balanced'' 0)
       = [team_d ! 0, team_d ! 2, team_d ! 3]
   \<and> overseas (recompute_counts
        (fst (select_starting_xi (pd_sort final_score) team_d ''balanced'' 0))) = 1"
  by code_simp

section \<open>The price ensemble\<close>

text \<open>
  C9. For every row, \<open>predicted_price\<close> is the larger of the 50/50 average of the two
  predictions, each mapped back from log space, and the row's base price, a missing base
  price counting as 0. So a base price that is present is a lower bound.
\<close>

theorem predict_prices_ensemble_floor:
  "length (predict_prices lgbm knn master_df) = length master_df
   \<and> (\<forall>i < length master_df.
        predict_prices lgbm knn master_df ! i
          = max (0.5 * (exp (lgbm (master_df ! i)) - 1) + 0.5 * (exp (knn (master_df ! i)) - 1))
                (case base_price (master_df ! i) of None \<Rightarrow> 0 | Some b \<Rightarrow> b)
        \<and> (\<forall>b. base_price (master_df ! i) = Some b
               \<longrightarrow> b \<le> predict_prices lgbm knn master_df ! i))"
  by (auto simp: predict_prices_def price_ensemble_def expm1_def fillna0_def)

theorem predict_prices_ensemble_floor_witness:
  "(1::nat) < length master_3
   \<and> predict_prices (\<lambda>r. ln 3) (\<lambda>r. ln 5) master_3 ! 1 = max 3 5
   \<and> base_price (master_3 ! 1) = Some 5
   \<and> 5 \<le> predict_prices (\<lambda>r. ln 3) (\<lambda>r. ln 5) master_3 ! 1"
  using predict_prices_ensemble_floor[of "\<lambda>r. ln 3" "\<lambda>r. ln 5" master_3]
  by (simp add: master_3_def)

end
